theory Spec2Isabelle
  imports Main "HOL-Library.AList"
begin

text \<open>
  A model of the node editor of the JSON graph viewer: the display of a path
  (\<open>jsonPathToString\<close>), the projection of a row (\<open>getRowText\<close>), the editable content of
  a node (\<open>normalizeNodeData\<close>), and the edit itself (\<open>applyEditToJson\<close> and the handler
  of the Save button), which patches the parsed document along a path, publishes its
  text to the stores and selects the node of the edited path again.
\<close>

section \<open>Data model\<close>

text \<open>
  A path is an ordered sequence of segments, each an object key (a string) or an array
  index (a non-negative integer). A numeric segment is a natural number here; the host
  prints such a number in plain decimal (as it does for every integer below \<open>10^21\<close>).
\<close>

datatype seg = Key string | Idx nat

text \<open>
  A parsed document is a JSON value. The code never computes with numbers, it only copies
  them, so the number type is a parameter \<open>'n\<close>. An object is the list of its own
  properties in enumeration order; an array is the list of its elements.
\<close>

datatype 'n json =
    JNull
  | JBool bool
  | JNum 'n
  | JStr string
  | JArr "'n json list"
  | JObj "(string \<times> 'n json) list"

text \<open>
  Modelled from the spec: the row and node types (\<open>types/graph\<close>) are not among the
  sources. A row has an optional key, a raw scalar value, a kind tag (the code compares it
  with the strings \<open>object\<close> and \<open>array\<close>) and an optional child count; a node has an
  identifier, an optional path and its rows.
\<close>

datatype 'n scalar = SNull | SBool bool | SNum 'n | SStr string

record 'n row =
  key :: "string option"
  rvalue :: "'n scalar"
  rtype :: string
  childrenCount :: "nat option"

record 'n node =
  node_id :: string
  node_text :: "'n row list option"
  node_path :: "seg list option"

section \<open>Numbers and strings of the host\<close>

definition digit_char :: "nat \<Rightarrow> char" where
  "digit_char d = ''0123456789'' ! d"

text \<open>Decimal rendering of a non-negative integer (the host's number-to-string).\<close>

function show_nat :: "nat \<Rightarrow> string" where
  "show_nat n = (if n < 10 then [digit_char n] else show_nat (n div 10) @ [digit_char (n mod 10)])"
  by pat_completeness auto
termination
  by (relation "measure (\<lambda>n. n)") auto

declare show_nat.simps [simp del]

definition dquote :: char where
  "dquote = CHR 0x22"

text \<open>\<open>Array.prototype.join\<close> on strings.\<close>

fun join :: "string \<Rightarrow> string list \<Rightarrow> string" where
  "join sep [] = []"
| "join sep [x] = x"
| "join sep (x # y # ys) = x @ sep @ join sep (y # ys)"

section \<open>Path display (\<open>jsonPathToString\<close>)\<close>

text \<open>
  \<^verbatim>\<open>path.map(seg => (typeof seg === "number" ? seg : `"${seg}"`))\<close>: a numeric
  segment stays a number and is printed by \<open>join\<close>; a string segment is wrapped in
  double quotes, without any escaping.
\<close>

fun seg_text :: "seg \<Rightarrow> string" where
  "seg_text (Idx n) = show_nat n"
| "seg_text (Key k) = [dquote] @ k @ [dquote]"

definition jsonPathToString :: "seg list option \<Rightarrow> string" where
  "jsonPathToString path =
     (case path of
        None \<Rightarrow> ''$''
      | Some p \<Rightarrow>
          if length p = 0 then ''$''
          else ''$['' @ join ''][''  (map seg_text p) @ '']'')"

section \<open>Serialising a path (\<open>JSON.stringify\<close> on an array of segments)\<close>

text \<open>
  The lookup of a node compares the compact JSON texts of two paths. The serialiser of
  the host quotes a string and escapes, in it, the double quote, the backslash and the
  characters below the space (by a short escape where there is one, by \<open>\u00XX\<close>
  otherwise); it prints a number in decimal; it separates the elements of an array by
  commas, between brackets. A string is a list of bytes here, the UTF-8 text of the
  key: the bytes of a character beyond ASCII pass unchanged.
\<close>

definition backslash :: char where
  "backslash = CHR 0x5C"

definition hex_digit :: "nat \<Rightarrow> char" where
  "hex_digit d = ''0123456789abcdef'' ! d"

definition json_escape :: "char \<Rightarrow> string" where
  "json_escape c =
     (if c = CHR 0x08 then [backslash, CHR ''b'']
      else if c = CHR 0x09 then [backslash, CHR ''t'']
      else if c = CHR 0x0A then [backslash, CHR ''n'']
      else if c = CHR 0x0C then [backslash, CHR ''f'']
      else if c = CHR 0x0D then [backslash, CHR ''r'']
      else if c = dquote then [backslash, dquote]
      else if c = backslash then [backslash, backslash]
      else if (of_char c :: nat) < 32
        then [backslash, CHR ''u'', CHR ''0'', CHR ''0'',
              hex_digit (of_char c div 16), hex_digit (of_char c mod 16)]
      else [c])"

definition json_quote :: "string \<Rightarrow> string" where
  "json_quote s = [dquote] @ concat (map json_escape s) @ [dquote]"

fun stringify_seg :: "seg \<Rightarrow> string" where
  "stringify_seg (Key k) = json_quote k"
| "stringify_seg (Idx n) = show_nat n"

definition stringify_path :: "seg list \<Rightarrow> string" where
  "stringify_path p = ''['' @ join '','' (map stringify_seg p) @ '']''"

text \<open>The text of a path without its opening bracket.\<close>

definition path_body :: "seg list \<Rightarrow> string" where
  "path_body p = join '','' (map stringify_seg p) @ '']''"

section \<open>Row projection (\<open>getRowText\<close>)\<close>

text \<open>\<^verbatim>\<open>row.childrenCount ?? 0\<close>\<close>

definition count_or_zero :: "nat option \<Rightarrow> nat" where
  "count_or_zero c = (case c of None \<Rightarrow> 0 | Some n \<Rightarrow> n)"

definition getRowText :: "'n row \<Rightarrow> 'n scalar" where
  "getRowText row =
     (if rtype row = ''object'' then SStr (''{'' @ show_nat (count_or_zero (childrenCount row)) @ '' keys}'')
      else if rtype row = ''array'' then SStr (''['' @ show_nat (count_or_zero (childrenCount row)) @ '' items]'')
      else rvalue row)"

section \<open>Property access on parsed values\<close>

text \<open>
  The outcome of a piece of code: it returns, it throws, or it leaves the JSON data
  model. The last case stands for an access that resolves on the host's built-in
  prototype chain (a name such as \<open>constructor\<close> or \<open>__proto__\<close> that the value does
  not own) or that addresses a property of an array other than an element: what the host
  does then is not part of this model, and no property is stated about it.
\<close>

datatype js_error = SyntaxError | TypeError

datatype 'a outcome = Done 'a | Throws js_error | Outside

text \<open>
  The names that the host's built-in prototypes define are a parameter
  \<open>h :: string \<Rightarrow> bool\<close> of every function that reads or assigns a property.
\<close>

type_synonym inherited = "string \<Rightarrow> bool"

text \<open>A property key is a string: a numeric segment is converted to its decimal text.\<close>

fun prop_key :: "seg \<Rightarrow> string" where
  "prop_key (Key k) = k"
| "prop_key (Idx n) = show_nat n"

definition is_digit :: "char \<Rightarrow> bool" where
  "is_digit c = (c \<in> set ''0123456789'')"

definition digit_val :: "char \<Rightarrow> nat" where
  "digit_val c = length (takeWhile (\<lambda>d. d \<noteq> c) ''0123456789'')"

text \<open>
  An array index is a key that is the canonical decimal text of an integer below
  \<open>2^32 - 1\<close>. Such keys address the elements of an array, and an object enumerates
  them first, in ascending order.
\<close>

definition key_index :: "string \<Rightarrow> nat option" where
  "key_index k =
     (if k \<noteq> [] \<and> list_all is_digit k \<and> (k = ''0'' \<or> hd k \<noteq> CHR ''0'')
      then (let n = foldl (\<lambda>a c. 10 * a + digit_val c) 0 k
            in if n < 4294967295 then Some n else None)
      else None)"

text \<open>
  The element that a segment addresses in an array. A numeric segment addresses the same
  element as its decimal key (lemma \<open>seg_index_prop_key\<close>).
\<close>

fun seg_index :: "seg \<Rightarrow> nat option" where
  "seg_index (Key k) = key_index k"
| "seg_index (Idx n) = (if n < 4294967295 then Some n else None)"

text \<open>
  Creating an own property that the object does not have yet: an array-index key goes
  before the first key that is not an array index or is a larger one, any other key goes
  last.
\<close>

fun ins_index :: "nat \<Rightarrow> string \<Rightarrow> 'a \<Rightarrow> (string \<times> 'a) list \<Rightarrow> (string \<times> 'a) list" where
  "ins_index i k x [] = [(k, x)]"
| "ins_index i k x ((k', v) # kvs) =
     (case key_index k' of
        Some j \<Rightarrow> if j < i then (k', v) # ins_index i k x kvs else (k, x) # (k', v) # kvs
      | None \<Rightarrow> (k, x) # (k', v) # kvs)"

text \<open>Defining or overwriting an own property: an existing key keeps its place.\<close>

definition own_put :: "(string \<times> 'a) list \<Rightarrow> string \<Rightarrow> 'a \<Rightarrow> (string \<times> 'a) list" where
  "own_put kvs k x =
     (if map_of kvs k \<noteq> None then AList.update k x kvs
      else case key_index k of
             None \<Rightarrow> kvs @ [(k, x)]
           | Some i \<Rightarrow> ins_index i k x kvs)"

text \<open>
  Reading \<^verbatim>\<open>parent[seg]\<close>. \<open>Done None\<close> is the value \<open>undefined\<close>. Reading a
  property of \<open>null\<close> throws; a string owns its characters and its length; a boolean and
  a number own nothing.
\<close>

fun get_prop :: "inherited \<Rightarrow> 'n json \<Rightarrow> seg \<Rightarrow> 'n json option outcome" where
  "get_prop h JNull s = Throws TypeError"
| "get_prop h (JObj kvs) s =
     (case map_of kvs (prop_key s) of
        Some v \<Rightarrow> Done (Some v)
      | None \<Rightarrow> if h (prop_key s) then Outside else Done None)"
| "get_prop h (JArr xs) s =
     (case seg_index s of
        Some i \<Rightarrow>
          if i < length xs then Done (Some (xs ! i))
          else if h (prop_key s) then Outside else Done None
      | None \<Rightarrow> Outside)"
| "get_prop h (JStr str) s =
     (case seg_index s of
        Some i \<Rightarrow>
          if i < length str then Done (Some (JStr [str ! i]))
          else if h (prop_key s) then Outside else Done None
      | None \<Rightarrow> if prop_key s = ''length'' \<or> h (prop_key s) then Outside else Done None)"
| "get_prop h (JBool b) s = (if h (prop_key s) then Outside else Done None)"
| "get_prop h (JNum n) s = (if h (prop_key s) then Outside else Done None)"

text \<open>
  Assigning \<^verbatim>\<open>parent[seg] = x\<close>, in strict mode (the source is an ES module).
  Assigning a property of \<open>null\<close>, of a boolean, of a number or of a string throws.
  Assigning an element beyond the end of an array extends the array; the holes it leaves
  are written \<open>JNull\<close> here, which is how the serialiser prints them.
\<close>

fun set_prop :: "inherited \<Rightarrow> 'n json \<Rightarrow> seg \<Rightarrow> 'n json \<Rightarrow> 'n json outcome" where
  "set_prop h JNull s x = Throws TypeError"
| "set_prop h (JObj kvs) s x =
     (if map_of kvs (prop_key s) = None \<and> h (prop_key s) then Outside
      else Done (JObj (own_put kvs (prop_key s) x)))"
| "set_prop h (JArr xs) s x =
     (case seg_index s of
        Some i \<Rightarrow>
          if i < length xs then Done (JArr (xs[i := x]))
          else if h (prop_key s) then Outside
          else Done (JArr (xs @ replicate (i - length xs) JNull @ [x]))
      | None \<Rightarrow> Outside)"
| "set_prop h (JStr str) s x = (if h (prop_key s) then Outside else Throws TypeError)"
| "set_prop h (JBool b) s x = (if h (prop_key s) then Outside else Throws TypeError)"
| "set_prop h (JNum n) s x = (if h (prop_key s) then Outside else Throws TypeError)"

section \<open>The patch (\<open>applyEditToJson\<close>, navigation and terminal write)\<close>

text \<open>
  \<^verbatim>\<open>{ ...target, ...newValue }\<close>: a copy of \<open>target\<close>, on which every own
  property of \<open>newValue\<close> is defined in order.
\<close>

definition spread :: "(string \<times> 'a) list \<Rightarrow> (string \<times> 'a) list \<Rightarrow> (string \<times> 'a) list" where
  "spread target newValue = foldl (\<lambda>obj (k, v). own_put obj k v) target newValue"

text \<open>
  The write at the last segment:
  \<^verbatim>\<open>
  if (newValue !== null && typeof newValue === "object" && !Array.isArray(newValue)) {
    const target = parent[lastSeg];
    if (target && typeof target === "object" && !Array.isArray(target)) {
      parent[lastSeg] = { ...target, ...newValue };
    } else {
      parent[lastSeg] = newValue;
    }
  } else {
    parent[lastSeg] = newValue;
  }
  \<close>
\<close>

definition setTarget :: "inherited \<Rightarrow> 'n json \<Rightarrow> seg \<Rightarrow> 'n json \<Rightarrow> 'n json outcome" where
  "setTarget h parent lastSeg newValue =
     (case newValue of
        JObj nv \<Rightarrow>
          (case get_prop h parent lastSeg of
             Throws e \<Rightarrow> Throws e
           | Outside \<Rightarrow> Outside
           | Done (Some (JObj target)) \<Rightarrow> set_prop h parent lastSeg (JObj (spread target nv))
           | Done _ \<Rightarrow> set_prop h parent lastSeg newValue)
      | _ \<Rightarrow> set_prop h parent lastSeg newValue)"

text \<open>
  The source mutates the working copy in place; the model rebuilds the parent around the
  patched child, which stays at the position it was read from.
\<close>

fun put_back :: "'n json \<Rightarrow> seg \<Rightarrow> 'n json \<Rightarrow> 'n json" where
  "put_back (JObj kvs) s c = JObj (AList.update (prop_key s) c kvs)"
| "put_back (JArr xs) s c = (case seg_index s of Some i \<Rightarrow> JArr (xs[i := c]) | None \<Rightarrow> JArr xs)"
| "put_back v s c = v"

text \<open>
  The walk over a non-empty path \<open>seg # rest\<close>, from \<open>parent\<close>:
  \<^verbatim>\<open>
  for (let i = 0; i < path.length - 1; i++) {
    const seg = path[i];
    if (parent[seg] === undefined) parent[seg] = {};
    parent = parent[seg];
  }
  const lastSeg = path[path.length - 1];
  \<close>
  followed by the write at \<open>lastSeg\<close>.
\<close>

fun patchAt :: "inherited \<Rightarrow> seg \<Rightarrow> seg list \<Rightarrow> 'n json \<Rightarrow> 'n json \<Rightarrow> 'n json outcome" where
  "patchAt h lastSeg [] parent newValue = setTarget h parent lastSeg newValue"
| "patchAt h seg (next # rest) parent newValue =
     (case get_prop h parent seg of
        Throws e \<Rightarrow> Throws e
      | Outside \<Rightarrow> Outside
      | Done None \<Rightarrow>
          (case set_prop h parent seg (JObj []) of
             Throws e \<Rightarrow> Throws e
           | Outside \<Rightarrow> Outside
           | Done parent1 \<Rightarrow>
               (case patchAt h next rest (JObj []) newValue of
                  Throws e \<Rightarrow> Throws e
                | Outside \<Rightarrow> Outside
                | Done child \<Rightarrow> Done (put_back parent1 seg child)))
      | Done (Some child0) \<Rightarrow>
          (case patchAt h next rest child0 newValue of
             Throws e \<Rightarrow> Throws e
           | Outside \<Rightarrow> Outside
           | Done child \<Rightarrow> Done (put_back parent seg child)))"

text \<open>
  The document that \<open>applyEditToJson\<close> hands to the serialiser: the new value itself at
  the root (\<^verbatim>\<open>!path || path.length === 0\<close>), the patched working copy otherwise.
\<close>

definition patched :: "inherited \<Rightarrow> 'n json \<Rightarrow> seg list option \<Rightarrow> 'n json \<Rightarrow> 'n json outcome" where
  "patched h parsedCurrent path newValue =
     (case path of
        None \<Rightarrow> Done newValue
      | Some [] \<Rightarrow> Done newValue
      | Some (seg # rest) \<Rightarrow> patchAt h seg rest parsedCurrent newValue)"

text \<open>
  The value a path addresses in a document: own object entries and array elements,
  segment by segment.
\<close>

fun own_value :: "'n json \<Rightarrow> seg \<Rightarrow> 'n json option" where
  "own_value (JObj kvs) s = map_of kvs (prop_key s)"
| "own_value (JArr xs) s =
     (case seg_index s of Some i \<Rightarrow> if i < length xs then Some (xs ! i) else None | None \<Rightarrow> None)"
| "own_value v s = None"


text \<open>
  The built-in names of a standard host's \<open>Object.prototype\<close>, with \<open>length\<close>: the
  instance of the parameter \<open>h\<close> used in the examples.
\<close>

definition standard_names :: inherited where
  "standard_names k =
     (k \<in> set [''constructor'', ''__proto__'', ''hasOwnProperty'', ''isPrototypeOf'',
        ''propertyIsEnumerable'', ''toLocaleString'', ''toString'', ''valueOf'',
        ''__defineGetter__'', ''__defineSetter__'', ''__lookupGetter__'', ''__lookupSetter__'',
        ''length''])"

text \<open>Auxiliary notions used to state the properties of the patch.\<close>

fun is_container :: "'n json \<Rightarrow> bool" where
  "is_container (JObj kvs) = True"
| "is_container (JArr xs) = True"
| "is_container v = False"

text \<open>An object value has each of its keys once.\<close>

fun distinct_keys :: "'n json \<Rightarrow> bool" where
  "distinct_keys (JObj kvs) = distinct (map fst kvs)"
| "distinct_keys v = True"





text \<open>
  The value found at the target after the terminal write, given the value found there
  before.
\<close>

definition written :: "'n json option \<Rightarrow> 'n json \<Rightarrow> 'n json" where
  "written existing v =
     (case v of
        JObj nv \<Rightarrow> (case existing of Some (JObj t) \<Rightarrow> JObj (spread t nv) | _ \<Rightarrow> v)
      | _ \<Rightarrow> v)"

section \<open>Editable content of a node (\<open>normalizeNodeData\<close>)\<close>

text \<open>
  The services of the host and of the stores' collaborators, which are not part of the
  sources: the JSON parser (\<open>None\<close> when it throws a syntax error), the serialiser with
  two-space indentation, the text of a number, the graph constructor, and the names
  defined by the built-in prototypes.
\<close>

record 'n host =
  JSON_parse :: "string \<Rightarrow> 'n json option"
  JSON_stringify :: "'n json \<Rightarrow> string"
  number_text :: "'n \<Rightarrow> string"
  parser :: "string \<Rightarrow> 'n node list"
  inherited_names :: inherited

text \<open>\<^verbatim>\<open>!row.key\<close>: the key is missing or is the empty string.\<close>

definition no_key :: "string option \<Rightarrow> bool" where
  "no_key k = (case k of None \<Rightarrow> True | Some s \<Rightarrow> s = [])"

text \<open>\<^verbatim>\<open>`${value}`\<close> on a scalar.\<close>

fun scalar_text :: "('n \<Rightarrow> string) \<Rightarrow> 'n scalar \<Rightarrow> string" where
  "scalar_text num SNull = ''null''"
| "scalar_text num (SBool b) = (if b then ''true'' else ''false'')"
| "scalar_text num (SNum n) = num n"
| "scalar_text num (SStr s) = s"

fun scalar_json :: "'n scalar \<Rightarrow> 'n json" where
  "scalar_json SNull = JNull"
| "scalar_json (SBool b) = JBool b"
| "scalar_json (SNum n) = JNum n"
| "scalar_json (SStr s) = JStr s"

text \<open>
  One step of the \<open>forEach\<close>:
  \<^verbatim>\<open>
  if (row.type !== "array" && row.type !== "object") {
    if (row.key) obj[row.key] = row.value;
  }
  \<close>
\<close>

definition add_row :: "inherited \<Rightarrow> 'n json \<Rightarrow> 'n row \<Rightarrow> 'n json outcome" where
  "add_row h obj row =
     (if rtype row \<noteq> ''array'' \<and> rtype row \<noteq> ''object'' then
        (case key row of
           None \<Rightarrow> Done obj
         | Some k \<Rightarrow> if k = [] then Done obj else set_prop h obj (Key k) (scalar_json (rvalue row)))
      else Done obj)"

fun forEach_rows :: "inherited \<Rightarrow> 'n json \<Rightarrow> 'n row list \<Rightarrow> 'n json outcome" where
  "forEach_rows h obj [] = Done obj"
| "forEach_rows h obj (row # rows) =
     (case add_row h obj row of
        Done obj' \<Rightarrow> forEach_rows h obj' rows
      | Throws e \<Rightarrow> Throws e
      | Outside \<Rightarrow> Outside)"

definition normalizeNodeData :: "'n host \<Rightarrow> 'n row list option \<Rightarrow> string outcome" where
  "normalizeNodeData env nodeRows =
     (case nodeRows of
        None \<Rightarrow> Done ''{}''
      | Some rows \<Rightarrow>
          if length rows = 0 then Done ''{}''
          else if length rows = 1 \<and> no_key (key (rows ! 0))
          then Done (scalar_text (number_text env) (rvalue (rows ! 0)))
          else (case forEach_rows (inherited_names env) (JObj []) rows of
                  Done obj \<Rightarrow> Done (JSON_stringify env obj)
                | Throws e \<Rightarrow> Throws e
                | Outside \<Rightarrow> Outside))"



section \<open>Stores and the edit session\<close>

text \<open>
  The state that an edit reads and writes: the file store (\<open>contents\<close>, \<open>hasChanges\<close>),
  the json store (\<open>json\<close>), the graph store (\<open>nodes\<close>, \<open>selectedNode\<close>) and the state of
  the modal (\<open>editing\<close>, \<open>editedContent\<close>, \<open>error\<close>).
\<close>

record 'n state =
  contents :: string
  hasChanges :: bool
  json :: string
  nodes :: "'n node list"
  selectedNode :: "'n node option"
  editing :: bool
  editedContent :: string
  error :: "js_error option"

text \<open>
  Modelled from the spec: the json store and the graph store are not among the sources.
  Setting the text of the json store publishes the document and triggers the
  reconstruction of the graph, synchronously; the graph store holds the node set and the
  selection.
\<close>

definition setJson :: "'n host \<Rightarrow> 'n state \<Rightarrow> string \<Rightarrow> 'n state" where
  "setJson env st jsonStr = st\<lparr>json := jsonStr, nodes := parser env jsonStr\<rparr>"

definition setSelectedNode :: "'n state \<Rightarrow> 'n node \<Rightarrow> 'n state" where
  "setSelectedNode st n = st\<lparr>selectedNode := Some n\<rparr>"

text \<open>\<^verbatim>\<open>n.path || []\<close> and \<^verbatim>\<open>match.text ?? []\<close>\<close>

definition path_or_root :: "'n node \<Rightarrow> seg list" where
  "path_or_root n = (case node_path n of None \<Rightarrow> [] | Some q \<Rightarrow> q)"

definition text_or_empty :: "'n node \<Rightarrow> 'n row list" where
  "text_or_empty n = (case node_text n of None \<Rightarrow> [] | Some t \<Rightarrow> t)"

text \<open>
  The root branch of \<open>applyEditToJson\<close>:
  \<^verbatim>\<open>
  const jsonStr = JSON.stringify(newValue, null, 2);
  useFile.setState({ contents: jsonStr, hasChanges: true });
  useJson.getState().setJson(jsonStr);
  const rootNode = useGraph.getState().nodes.find(n => !n.path || n.path.length === 0) ?? null;
  if (rootNode) useGraph.getState().setSelectedNode(rootNode);
  \<close>
\<close>

definition replaceRoot :: "'n host \<Rightarrow> 'n state \<Rightarrow> 'n json \<Rightarrow> 'n state" where
  "replaceRoot env st newValue =
     (let jsonStr = JSON_stringify env newValue;
          st1 = st\<lparr>contents := jsonStr, hasChanges := True\<rparr>;
          st2 = setJson env st1 jsonStr
      in case find (\<lambda>n. case node_path n of None \<Rightarrow> True | Some q \<Rightarrow> length q = 0) (nodes st2) of
           None \<Rightarrow> st2
         | Some rootNode \<Rightarrow> setSelectedNode st2 rootNode)"

text \<open>
  What follows the patch in the other branch:
  \<^verbatim>\<open>
  const jsonStr = JSON.stringify(parsedCurrent, null, 2);
  useFile.setState({ contents: jsonStr, hasChanges: true });
  useJson.getState().setJson(jsonStr);
  const nodes = useGraph.getState().nodes;
  const match = nodes.find(n => JSON.stringify(n.path || []) === JSON.stringify(path || []));
  if (match) {
    useGraph.getState().setSelectedNode(match);
    setEditedContent(normalizeNodeData(match.text ?? []));
  }
  \<close>
\<close>

definition publishAndReselect :: "'n host \<Rightarrow> 'n state \<Rightarrow> seg list \<Rightarrow> 'n json \<Rightarrow> 'n state outcome" where
  "publishAndReselect env st path parsedCurrent =
     (let jsonStr = JSON_stringify env parsedCurrent;
          st1 = st\<lparr>contents := jsonStr, hasChanges := True\<rparr>;
          st2 = setJson env st1 jsonStr
      in case find (\<lambda>n. stringify_path (path_or_root n) = stringify_path path) (nodes st2) of
           None \<Rightarrow> Done st2
         | Some match \<Rightarrow>
             (case normalizeNodeData env (Some (text_or_empty match)) of
                Done s \<Rightarrow> Done ((setSelectedNode st2 match)\<lparr>editedContent := s\<rparr>)
              | Throws e \<Rightarrow> Throws e
              | Outside \<Rightarrow> Outside))"

text \<open>
  \<open>applyEditToJson\<close>. The current text that fails to parse is replaced by the empty
  object (\<^verbatim>\<open>// if current is empty or invalid, start fresh\<close>); the outer
  \<^verbatim>\<open>catch (err) { throw err; }\<close> passes every exception on. An exception can
  only come from the patch, which works on the local copy before any store is written:
  building the editable content does not throw (lemma \<open>normalizeNodeData_no_throw\<close>).
\<close>

definition applyEditToJson ::
    "'n host \<Rightarrow> 'n state \<Rightarrow> seg list option \<Rightarrow> 'n json \<Rightarrow> 'n state outcome" where
  "applyEditToJson env st path newValue =
     (let current = json st;
          parsedCurrent = (case JSON_parse env current of None \<Rightarrow> JObj [] | Some d \<Rightarrow> d)
      in case path of
           None \<Rightarrow> Done (replaceRoot env st newValue)
         | Some [] \<Rightarrow> Done (replaceRoot env st newValue)
         | Some (seg # rest) \<Rightarrow>
             (case patchAt (inherited_names env) seg rest parsedCurrent newValue of
                Throws e \<Rightarrow> Throws e
              | Outside \<Rightarrow> Outside
              | Done parsed' \<Rightarrow> publishAndReselect env st (seg # rest) parsed'))"


section \<open>An example host\<close>

text \<open>
  The examples run on a host given by tables: its parser, serialiser and graph
  constructor agree with the real ones on the few texts and documents the examples use
  (the texts are the two-space-indented JSON of \<open>{a: 5}\<close>, \<open>{x: 1}\<close> and
  \<open>{a: {x: 1}}\<close>), and the text \<open>oops\<close> is not JSON.
\<close>

definition newline :: char where
  "newline = CHR 0x0A"

definition text_a5 :: string where
  "text_a5 = ''{'' @ [newline] @ ''  '' @ [dquote] @ ''a'' @ [dquote] @ '': 5'' @ [newline] @ ''}''"

definition text_x1 :: string where
  "text_x1 = ''{'' @ [newline] @ ''  '' @ [dquote] @ ''x'' @ [dquote] @ '': 1'' @ [newline] @ ''}''"

definition text_ax1 :: string where
  "text_ax1 = ''{'' @ [newline] @ ''  '' @ [dquote] @ ''a'' @ [dquote] @ '': {'' @ [newline]
      @ ''    '' @ [dquote] @ ''x'' @ [dquote] @ '': 1'' @ [newline] @ ''  }'' @ [newline] @ ''}''"

definition node_root_a5 :: "int node" where
  "node_root_a5 =
     \<lparr>node_id = ''1'',
      node_text = Some [\<lparr>key = Some ''a'', rvalue = SNum 5, rtype = ''number'', childrenCount = None\<rparr>],
      node_path = Some []\<rparr>"

definition node_root_ax1 :: "int node" where
  "node_root_ax1 =
     \<lparr>node_id = ''1'',
      node_text = Some [\<lparr>key = Some ''a'', rvalue = SNull, rtype = ''object'', childrenCount = Some 1\<rparr>],
      node_path = Some []\<rparr>"

definition node_a_x1 :: "int node" where
  "node_a_x1 =
     \<lparr>node_id = ''2'',
      node_text = Some [\<lparr>key = Some ''x'', rvalue = SNum 1, rtype = ''number'', childrenCount = None\<rparr>],
      node_path = Some [Key ''a'']\<rparr>"

definition example_host :: "int host" where
  "example_host =
     \<lparr>JSON_parse = map_of [(''{}'', JObj []), (''5'', JNum 5)],
      JSON_stringify = (\<lambda>d.
         if d = JNum 5 then ''5''
         else if d = JObj [(''a'', JNum 5)] then text_a5
         else if d = JObj [(''x'', JNum 1)] then text_x1
         else if d = JObj [(''a'', JObj [(''x'', JNum 1)])] then text_ax1
         else []),
      number_text = (\<lambda>n. if n < 0 then ''-'' @ show_nat (nat (- n)) else show_nat (nat n)),
      parser = (\<lambda>t.
         if t = text_a5 then [node_root_a5]
         else if t = text_ax1 then [node_root_ax1, node_a_x1]
         else []),
      inherited_names = standard_names\<rparr>"


definition state_empty_doc :: "int state" where
  "state_empty_doc =
     \<lparr>contents = ''{}'', hasChanges = False, json = ''{}'', nodes = [],
      selectedNode = None, editing = True, editedContent = ''oops'', error = None\<rparr>"

section \<open>Properties of the path display\<close>

lemma join_brackets:
  "xs \<noteq> [] \<Longrightarrow> ''['' @ join ''][''  xs @ '']'' = concat (map (\<lambda>x. ''['' @ x @ '']'') xs)"
  by (induction "''][''" xs rule: join.induct) auto

text \<open>
  Claim C8. The display string of a path is \<open>$\<close> followed by one bracket pair per
  segment, in order; a string segment appears between double quotes, a numeric segment
  in decimal without quotes. The empty (or missing) path gives exactly \<open>$\<close>, and the
  path \<open>["customer", 2, "name"]\<close> gives \<open>$["customer"][2]["name"]\<close>.
\<close>

theorem jsonPathToString_brackets:
  "jsonPathToString None = ''$''
   \<and> jsonPathToString (Some []) = ''$''
   \<and> jsonPathToString (Some p) = ''$'' @ concat (map (\<lambda>s. ''['' @ seg_text s @ '']'') p)
   \<and> seg_text (Key k) = [CHR 0x22] @ k @ [CHR 0x22]
   \<and> seg_text (Idx n) = show_nat n
   \<and> seg_text (Idx 2) = ''2''
   \<and> jsonPathToString (Some [Key ''customer'', Idx 2, Key ''name''])
       = ''$['' @ [CHR 0x22] @ ''customer'' @ [CHR 0x22] @ ''][2]['' @ [CHR 0x22] @ ''name'' @ [CHR 0x22] @ '']''"
proof -
  have gen: "jsonPathToString (Some p) = ''$'' @ concat (map (\<lambda>s. ''['' @ seg_text s @ '']'') p)"
  proof (cases p)
    case Nil
    then show ?thesis by (simp add: jsonPathToString_def)
  next
    case (Cons s ss)
    then have "map seg_text p \<noteq> []" by simp
    from join_brackets [OF this] Cons show ?thesis
      by (simp add: jsonPathToString_def comp_def)
  qed
  have two: "show_nat 2 = ''2''"
    by (simp add: show_nat.simps [of 2] digit_char_def)
  show ?thesis
    using gen two by (simp add: jsonPathToString_def dquote_def)
qed

section \<open>Lemmas on decimal texts and on the serialised path\<close>

lemma hex_digit_inj: "a < 16 \<Longrightarrow> b < 16 \<Longrightarrow> hex_digit a = hex_digit b \<Longrightarrow> a = b"
proof -
  assume a: "a < 16" and b: "b < 16" and e: "hex_digit a = hex_digit b"
  have d: "distinct ''0123456789abcdef''" by simp
  have l: "length ''0123456789abcdef'' = 16" by simp
  from nth_eq_iff_index_eq [OF d, of a b] a b e l show "a = b"
    by (simp add: hex_digit_def)
qed

lemma control_char_eq:
  assumes "(of_char c :: nat) < 32" and "(of_char c' :: nat) < 32"
    and "hex_digit (of_char c div 16) = hex_digit (of_char c' div 16)"
    and "hex_digit (of_char c mod 16) = hex_digit (of_char c' mod 16)"
  shows "c = c'"
proof -
  let ?n = "of_char c :: nat" and ?m = "of_char c' :: nat"
  from assms(1,2) have "?n div 16 < 16" "?m div 16 < 16" by simp_all
  with assms(3) have hi: "?n div 16 = ?m div 16" by (rule hex_digit_inj [rotated 2])
  have "?n mod 16 < 16" "?m mod 16 < 16" by simp_all
  with assms(4) have lo: "?n mod 16 = ?m mod 16" by (rule hex_digit_inj [rotated 2])
  from hi lo have "?n = ?m" by (metis div_mult_mod_eq)
  then show ?thesis by (simp only: of_char_eq_iff)
qed

lemma json_escape_cancel:
  "json_escape c @ r = json_escape c' @ r' \<Longrightarrow> c = c' \<and> r = r'"
  by (auto simp: json_escape_def backslash_def dquote_def split: if_splits
      dest: control_char_eq)

lemma json_escape_head: "json_escape c \<noteq> [] \<and> hd (json_escape c) \<noteq> dquote"
  by (simp add: json_escape_def backslash_def dquote_def)

lemma escapes_cancel:
  "concat (map json_escape k) @ dquote # r = concat (map json_escape k') @ dquote # r'
     \<Longrightarrow> k = k' \<and> r = r'"
proof (induction k arbitrary: k')
  case Nil
  show ?case
  proof (cases k')
    case Nil
    with Nil.prems show ?thesis by simp
  next
    case (Cons c' ks')
    from json_escape_head [of c'] obtain x xs where e: "json_escape c' = x # xs" and "x \<noteq> dquote"
      by (cases "json_escape c'") auto
    with Nil.prems Cons show ?thesis by simp
  qed
next
  case (Cons c ks)
  show ?case
  proof (cases k')
    case Nil
    from json_escape_head [of c] obtain x xs where e: "json_escape c = x # xs" and "x \<noteq> dquote"
      by (cases "json_escape c") auto
    with Cons.prems Nil show ?thesis by simp
  next
    case (Cons c' ks')
    with Cons.prems have
      "json_escape c @ (concat (map json_escape ks) @ dquote # r)
       = json_escape c' @ (concat (map json_escape ks') @ dquote # r')"
      by simp
    from json_escape_cancel [OF this] have c: "c = c'" and
      rest: "concat (map json_escape ks) @ dquote # r = concat (map json_escape ks') @ dquote # r'"
      by simp_all
    from Cons.IH [OF rest] c Cons show ?thesis by simp
  qed
qed

lemma json_quote_cancel: "json_quote k @ r = json_quote k' @ r' \<Longrightarrow> k = k' \<and> r = r'"
  using escapes_cancel [of k r k' r'] by (simp add: json_quote_def)

lemma digit_val_digit_char: "d < 10 \<Longrightarrow> digit_val (digit_char d) = d"
proof -
  assume "d < 10"
  then have "d = 0 \<or> d = 1 \<or> d = 2 \<or> d = 3 \<or> d = 4 \<or> d = 5 \<or> d = 6 \<or> d = 7 \<or> d = 8 \<or> d = 9"
    by arith
  then show ?thesis
    by (elim disjE) (simp_all add: digit_val_def digit_char_def)
qed

lemma is_digit_digit_char: "d < 10 \<Longrightarrow> is_digit (digit_char d)"
proof -
  assume "d < 10"
  then have "digit_char d \<in> set ''0123456789''"
    unfolding digit_char_def by (intro nth_mem) simp
  then show ?thesis by (simp add: is_digit_def)
qed

lemma show_nat_digits: "list_all is_digit (show_nat n) \<and> show_nat n \<noteq> []"
proof (induction n rule: show_nat.induct)
  case (1 n)
  show ?case
  proof (cases "n < 10")
    case True
    then show ?thesis by (simp add: show_nat.simps [of n] is_digit_digit_char)
  next
    case False
    with "1" show ?thesis by (simp add: show_nat.simps [of n] is_digit_digit_char)
  qed
qed

lemma read_show_nat: "foldl (\<lambda>a c. 10 * a + digit_val c) 0 (show_nat n) = n"
proof (induction n rule: show_nat.induct)
  case (1 n)
  show ?case
  proof (cases "n < 10")
    case True
    then show ?thesis by (simp add: show_nat.simps [of n] digit_val_digit_char)
  next
    case False
    with "1" show ?thesis by (simp add: show_nat.simps [of n] digit_val_digit_char)
  qed
qed

lemma show_nat_inj: "show_nat n = show_nat m \<Longrightarrow> n = m"
proof -
  assume e: "show_nat n = show_nat m"
  have "n = foldl (\<lambda>a c. 10 * a + digit_val c) 0 (show_nat n)"
    by (simp only: read_show_nat)
  also have "\<dots> = foldl (\<lambda>a c. 10 * a + digit_val c) 0 (show_nat m)"
    by (simp only: e)
  also have "\<dots> = m"
    by (simp only: read_show_nat)
  finally show ?thesis .
qed

lemma digits_cancel:
  assumes "list_all is_digit xs" and "list_all is_digit ys"
    and "xs @ x # r = ys @ y # r'" and "\<not> is_digit x" and "\<not> is_digit y"
  shows "xs = ys \<and> r = r'"
proof -
  from assms(1,4) have "takeWhile is_digit (xs @ x # r) = xs"
    by (simp add: takeWhile_append2 list_all_iff)
  moreover from assms(2,5) have "takeWhile is_digit (ys @ y # r') = ys"
    by (simp add: takeWhile_append2 list_all_iff)
  ultimately have "xs = ys" using assms(3) by simp
  with assms(3) show ?thesis by simp
qed

lemma stringify_seg_head:
  "stringify_seg s \<noteq> [] \<and> hd (stringify_seg s) \<noteq> CHR '','' \<and> hd (stringify_seg s) \<noteq> CHR '']''"
proof (cases s)
  case (Key k)
  then show ?thesis by (simp add: json_quote_def dquote_def)
next
  case (Idx n)
  from show_nat_digits [of n] obtain x xs where e: "show_nat n = x # xs" and "is_digit x"
    by (cases "show_nat n") auto
  then have "x \<noteq> CHR '',''" and "x \<noteq> CHR '']''" by (auto simp: is_digit_def)
  with e Idx show ?thesis by simp
qed

lemma stringify_seg_cancel:
  assumes "stringify_seg s @ c # r = stringify_seg s' @ c' # r'"
    and "c = CHR '','' \<or> c = CHR '']''" and "c' = CHR '','' \<or> c' = CHR '']''"
  shows "s = s' \<and> c # r = c' # r'"
proof -
  from assms(2) have nc: "\<not> is_digit c" by (auto simp: is_digit_def)
  from assms(3) have nc': "\<not> is_digit c'" by (auto simp: is_digit_def)
  have mixed: False
    if e: "json_quote k @ x # a = show_nat n @ y # b" for k n x y a b
  proof -
    from show_nat_digits [of n] obtain d ds where "show_nat n = d # ds" and "is_digit d"
      by (cases "show_nat n") auto
    with e have "dquote = d" by (simp add: json_quote_def)
    with \<open>is_digit d\<close> show False by (simp add: is_digit_def dquote_def)
  qed
  show ?thesis
  proof (cases s)
    case (Key k)
    show ?thesis
    proof (cases s')
      case (Key k')
      with \<open>s = Key k\<close> assms(1) json_quote_cancel [of k "c # r" k' "c' # r'"] show ?thesis
        by simp
    next
      case (Idx m)
      with \<open>s = Key k\<close> assms(1) mixed [of k c r m c' r'] show ?thesis by simp
    qed
  next
    case (Idx n)
    show ?thesis
    proof (cases s')
      case (Key k')
      with \<open>s = Idx n\<close> assms(1) mixed [of k' c' r' n c r] show ?thesis by simp
    next
      case (Idx m)
      with \<open>s = Idx n\<close> assms(1) have e: "show_nat n @ c # r = show_nat m @ c' # r'" by simp
      from digits_cancel [OF _ _ e nc nc'] show_nat_digits [of n] show_nat_digits [of m]
      have "show_nat n = show_nat m" and "r = r'" by simp_all
      with e show_nat_inj [of n m] Idx \<open>s = Idx n\<close> show ?thesis by simp
    qed
  qed
qed

lemma path_body_Cons:
  "path_body (s # p) = stringify_seg s @ (if p = [] then '']'' else CHR '','' # path_body p)"
  by (cases p) (simp_all add: path_body_def)

lemma path_body_inj: "path_body p = path_body q \<Longrightarrow> p = q"
proof (induction p arbitrary: q)
  case Nil
  show ?case
  proof (cases q)
    case Nil
    then show ?thesis by simp
  next
    case (Cons s' qs)
    from stringify_seg_head [of s'] obtain x xs where "stringify_seg s' = x # xs" and "x \<noteq> CHR '']''"
      by (cases "stringify_seg s'") auto
    with Nil.prems Cons show ?thesis
      by (simp add: path_body_Cons) (simp add: path_body_def)
  qed
next
  case (Cons s ps)
  show ?case
  proof (cases q)
    case Nil
    from stringify_seg_head [of s] obtain x xs where "stringify_seg s = x # xs" and "x \<noteq> CHR '']''"
      by (cases "stringify_seg s") auto
    with Cons.prems Nil show ?thesis
      by (simp add: path_body_Cons) (simp add: path_body_def)
  next
    case (Cons s' qs)
    obtain c r where t: "(if ps = [] then '']'' else CHR '','' # path_body ps) = c # r"
      and c: "c = CHR '','' \<or> c = CHR '']''"
      by (cases "ps = []") auto
    obtain c' r' where t': "(if qs = [] then '']'' else CHR '','' # path_body qs) = c' # r'"
      and c': "c' = CHR '','' \<or> c' = CHR '']''"
      by (cases "qs = []") auto
    from Cons.prems Cons t t' have "stringify_seg s @ c # r = stringify_seg s' @ c' # r'"
      by (simp add: path_body_Cons)
    from stringify_seg_cancel [OF this c c'] have s: "s = s'" and e: "c # r = c' # r'"
      by simp_all
    from e t t' have "(if ps = [] then '']'' else CHR '','' # path_body ps)
                    = (if qs = [] then '']'' else CHR '','' # path_body qs)"
      by simp
    then have "ps = qs"
      by (cases "ps = []"; cases "qs = []") (auto dest: Cons.IH)
    with s Cons show ?thesis by simp
  qed
qed

lemma stringify_path_inj: "stringify_path p = stringify_path q \<Longrightarrow> p = q"
  using path_body_inj [of p q] by (simp add: stringify_path_def path_body_def)

lemma stringify_path_eq [simp]: "(stringify_path p = stringify_path q) = (p = q)"
  by (auto dest: stringify_path_inj)

lemma show_nat_zero: "show_nat 0 = ''0''"
  by (simp add: show_nat.simps [of 0] digit_char_def)

lemma digit_char_nonzero: "0 < d \<Longrightarrow> d < 10 \<Longrightarrow> digit_char d \<noteq> CHR ''0''"
proof -
  assume "0 < d" and "d < 10"
  then have "d = 1 \<or> d = 2 \<or> d = 3 \<or> d = 4 \<or> d = 5 \<or> d = 6 \<or> d = 7 \<or> d = 8 \<or> d = 9"
    by arith
  then show ?thesis by (elim disjE) (simp_all add: digit_char_def)
qed

lemma show_nat_canonical: "show_nat n = ''0'' \<or> hd (show_nat n) \<noteq> CHR ''0''"
proof (induction n rule: show_nat.induct)
  case (1 n)
  show ?case
  proof (cases "n < 10")
    case True
    show ?thesis
    proof (cases "n = 0")
      case True
      then show ?thesis by (simp add: show_nat_zero)
    next
      case False
      with \<open>n < 10\<close> show ?thesis by (simp add: show_nat.simps [of n] digit_char_nonzero)
    qed
  next
    case False
    then have nz: "n div 10 \<noteq> 0" by simp
    have "show_nat (n div 10) \<noteq> ''0''"
    proof
      assume "show_nat (n div 10) = ''0''"
      then have "show_nat (n div 10) = show_nat 0" by (simp add: show_nat_zero)
      then have "n div 10 = 0" by (rule show_nat_inj)
      with nz show False by simp
    qed
    with "1" False have h: "hd (show_nat (n div 10)) \<noteq> CHR ''0''" by simp
    from show_nat_digits [of "n div 10"] have "show_nat (n div 10) \<noteq> []" by simp
    with h False show ?thesis by (simp add: show_nat.simps [of n])
  qed
qed

lemma key_index_show_nat: "key_index (show_nat n) = (if n < 4294967295 then Some n else None)"
  using show_nat_digits [of n] show_nat_canonical [of n]
  by (auto simp: key_index_def read_show_nat Let_def)

lemma seg_index_prop_key: "seg_index s = key_index (prop_key s)"
  by (cases s) (simp_all add: key_index_show_nat)

section \<open>Lemmas on property access and on the patch\<close>

lemma map_of_ins_index:
  "map_of kvs k = None \<Longrightarrow> map_of (ins_index i k x kvs) k' = (if k' = k then Some x else map_of kvs k')"
  by (induction kvs) (auto split: option.splits if_splits)

lemma map_of_own_put: "map_of (own_put kvs k x) = (map_of kvs)(k \<mapsto> x)"
  by (rule ext)
     (auto simp: own_put_def update_conv' map_of_ins_index map_add_def split: option.splits)

lemma own_put_same: "map_of kvs k = Some x \<Longrightarrow> own_put kvs k x = kvs"
  by (simp add: own_put_def update_triv)

lemma own_put_Nil: "own_put [] k x = [(k, x)]"
  by (simp add: own_put_def split: option.splits)

lemma set_prop_own_value: "set_prop h d s x = Done d' \<Longrightarrow> own_value d' s = Some x"
  by (cases d) (auto simp: map_of_own_put nth_append split: if_splits option.splits)

lemma set_prop_same: "own_value d s = Some x \<Longrightarrow> set_prop h d s x = Done d"
  by (cases d) (auto simp: own_put_same split: if_splits option.splits)

lemma put_back_own_value: "own_value d s = Some c0 \<Longrightarrow> own_value (put_back d s c) s = Some c"
  by (cases d) (auto simp: update_conv' split: if_splits option.splits)

lemma put_back_same: "own_value d s = Some c \<Longrightarrow> put_back d s c = d"
  by (cases d) (auto simp: update_triv split: if_splits option.splits)

lemma get_prop_own: "own_value d s = Some c \<Longrightarrow> get_prop h d s = Done (Some c)"
  by (cases d) (auto split: if_splits option.splits)

lemma get_prop_container: "is_container d \<Longrightarrow> get_prop h d s = Done r \<Longrightarrow> r = own_value d s"
  by (cases d) (auto split: if_splits option.splits)

lemma set_prop_container: "set_prop h d s x = Done d' \<Longrightarrow> is_container d \<and> is_container d'"
  by (cases d) (auto split: if_splits option.splits)

lemma setTarget_container: "setTarget h d s v = Done d' \<Longrightarrow> is_container d"
  by (auto simp: setTarget_def dest: set_prop_container split: json.splits outcome.splits option.splits)

lemma patchAt_container: "patchAt h s r d v = Done d' \<Longrightarrow> is_container d"
proof (induction r arbitrary: s d d')
  case Nil
  then show ?case by (simp add: setTarget_container)
next
  case (Cons n r')
  show ?case
  proof (cases "is_container d")
    case True
    then show ?thesis .
  next
    case False
    with Cons.prems show ?thesis
      by (cases d) (auto split: outcome.splits option.splits if_splits dest: Cons.IH)
  qed
qed

lemma setTarget_value:
  assumes "setTarget h d s v = Done d'"
  shows "own_value d' s =
           Some (case v of
                   JObj nv \<Rightarrow> (case own_value d s of Some (JObj t) \<Rightarrow> JObj (spread t nv) | _ \<Rightarrow> v)
                 | _ \<Rightarrow> v)"
proof -
  from assms have c: "is_container d" by (rule setTarget_container)
  show ?thesis
  proof (cases "get_prop h d s")
    case (Done r)
    with c have r: "r = own_value d s" by (simp add: get_prop_container)
    from assms Done r show ?thesis
      by (auto simp: setTarget_def dest: set_prop_own_value split: json.splits option.splits)
  next
    case (Throws e)
    with assms show ?thesis
      by (auto simp: setTarget_def dest: set_prop_own_value split: json.splits)
  next
    case Outside
    with assms show ?thesis
      by (auto simp: setTarget_def dest: set_prop_own_value split: json.splits)
  qed
qed


lemma map_of_spread:
  "distinct (map fst nv) \<Longrightarrow>
     map_of (spread t nv) k = (case map_of nv k of Some v \<Rightarrow> Some v | None \<Rightarrow> map_of t k)"
proof (induction nv arbitrary: t)
  case Nil
  then show ?case by (simp add: spread_def)
next
  case (Cons e nv)
  obtain k' v' where e: "e = (k', v')" by (cases e)
  from Cons.prems e have d: "distinct (map fst nv)" and nk: "map_of nv k' = None"
    by (auto simp: map_of_eq_None_iff)
  have "spread t (e # nv) = spread (own_put t k' v') nv"
    by (simp add: spread_def e)
  with Cons.IH [OF d, of "own_put t k' v'"] nk e show ?case
    by (auto simp: map_of_own_put split: option.splits)
qed









lemma spread_fix: "(\<forall>(k, v) \<in> set nv. map_of m k = Some v) \<Longrightarrow> spread m nv = m"
proof (induction nv)
  case Nil
  then show ?case by (simp add: spread_def)
next
  case (Cons e nv)
  obtain k v where e: "e = (k, v)" by (cases e)
  with Cons.prems have "own_put m k v = m" by (simp add: own_put_same)
  then have "spread m (e # nv) = spread m nv" by (simp add: spread_def e)
  with Cons show ?case by simp
qed

lemma spread_absorb:
  assumes "distinct (map fst nv)"
  shows "spread (spread t nv) nv = spread t nv"
proof (rule spread_fix)
  show "\<forall>(k, v) \<in> set nv. map_of (spread t nv) k = Some v"
    using assms by (auto simp: map_of_spread)
qed

lemma spread_self: "distinct (map fst nv) \<Longrightarrow> spread nv nv = nv"
  by (rule spread_fix) auto

lemma setTarget_idem:
  assumes "setTarget h d s v = Done d1" and "distinct_keys v"
  shows "setTarget h d1 s v = Done d1"
proof -
  from assms(1) have c: "is_container d" by (rule setTarget_container)
  let ?w = "written (own_value d s) v"
  from setTarget_value [OF assms(1)] have o: "own_value d1 s = Some ?w"
    by (simp add: written_def)
  then have g: "get_prop h d1 s = Done (Some ?w)" by (rule get_prop_own)
  from o have same: "set_prop h d1 s ?w = Done d1" by (rule set_prop_same)
  show ?thesis
  proof (cases v)
    case (JObj nv)
    with assms(2) have dn: "distinct (map fst nv)" by simp
    show ?thesis
    proof (cases "\<exists>t. own_value d s = Some (JObj t)")
      case True
      then obtain t where t: "own_value d s = Some (JObj t)" by blast
      with JObj have w: "?w = JObj (spread t nv)" by (simp add: written_def)
      from g same w JObj dn show ?thesis
        by (simp add: setTarget_def spread_absorb)
    next
      case False
      with JObj have w: "?w = v"
        by (auto simp: written_def split: option.splits json.splits)
      from g same w JObj dn show ?thesis
        by (simp add: setTarget_def spread_self)
    qed
  qed (use same in \<open>simp_all add: setTarget_def written_def\<close>)
qed

lemma patchAt_idem:
  "patchAt h s r d v = Done d1 \<Longrightarrow> distinct_keys v \<Longrightarrow> patchAt h s r d1 v = Done d1"
proof (induction r arbitrary: s d d1)
  case Nil
  then show ?case by (simp add: setTarget_idem)
next
  case (Cons n r)
  from Cons.prems(1) have c: "is_container d" by (rule patchAt_container)
  from Cons.prems(1) obtain d0 c0 c1 where
    o0: "own_value d0 s = Some c0" and c1: "patchAt h n r c0 v = Done c1" and d1: "d1 = put_back d0 s c1"
  proof (cases "own_value d s")
    case None
    with c have "get_prop h d s = Done None \<or> get_prop h d s = Outside"
      by (cases d) (auto split: option.splits)
    with Cons.prems(1) obtain d0 c1 where
      a: "set_prop h d s (JObj []) = Done d0" and
      b: "patchAt h n r (JObj []) v = Done c1" and
      e: "d1 = put_back d0 s c1"
      by (auto split: outcome.splits)
    from a have "own_value d0 s = Some (JObj [])" by (rule set_prop_own_value)
    with b e that show ?thesis by blast
  next
    case (Some c0)
    then have "get_prop h d s = Done (Some c0)" by (rule get_prop_own)
    with Cons.prems(1) obtain c1 where
      "patchAt h n r c0 v = Done c1" and "d1 = put_back d s c1"
      by (auto split: outcome.splits)
    with Some that show ?thesis by blast
  qed
  from o0 have o1: "own_value d1 s = Some c1" unfolding d1 by (rule put_back_own_value)
  then have g: "get_prop h d1 s = Done (Some c1)" by (rule get_prop_own)
  from Cons.IH [OF c1 Cons.prems(2)] have i: "patchAt h n r c1 v = Done c1" .
  from o1 have "put_back d1 s c1 = d1" by (rule put_back_same)
  with g i show ?case by simp
qed












section \<open>Claims on the patch\<close>










text \<open>
  Claim C6. For every document, path and new value (an object value having each key
  once): if the edit yields the document \<open>D1\<close>, applying the same edit to \<open>D1\<close> yields
  \<open>D1\<close> again, at the root, under the merge and under the replacement.
\<close>

theorem patch_idempotent:
  "patched h D path V = Done D1 \<Longrightarrow> distinct_keys V \<Longrightarrow> patched h D1 path V = Done D1"
  by (auto simp: patched_def patchAt_idem split: option.splits list.splits)

theorem patch_idempotent_witness:
  "patched standard_names (JObj [(''a'', JObj [(''x'', JNum (1::int)), (''y'', JNum 2)])])
       (Some [Key ''a'']) (JObj [(''y'', JNum 3), (''z'', JNum 4)])
     = Done (JObj [(''a'', JObj [(''x'', JNum 1), (''y'', JNum 3), (''z'', JNum 4)])])
   \<and> distinct_keys (JObj [(''y'', JNum (3::int)), (''z'', JNum 4)])
   \<and> patched standard_names (JObj [(''a'', JObj [(''x'', JNum (1::int)), (''y'', JNum 3), (''z'', JNum 4)])])
       (Some [Key ''a'']) (JObj [(''y'', JNum 3), (''z'', JNum 4)])
     = Done (JObj [(''a'', JObj [(''x'', JNum 1), (''y'', JNum 3), (''z'', JNum 4)])])"
proof -
  have run: "patched standard_names (JObj [(''a'', JObj [(''x'', JNum (1::int)), (''y'', JNum 2)])])
       (Some [Key ''a'']) (JObj [(''y'', JNum 3), (''z'', JNum 4)])
     = Done (JObj [(''a'', JObj [(''x'', JNum 1), (''y'', JNum 3), (''z'', JNum 4)])])"
    by (simp add: patched_def setTarget_def spread_def own_put_def standard_names_def
        key_index_def is_digit_def)
  have dk: "distinct_keys (JObj [(''y'', JNum (3::int)), (''z'', JNum 4)])" by simp
  from patch_idempotent [OF run dk] run dk show ?thesis by simp
qed

section \<open>Claim on the row projection\<close>

text \<open>
  Claim C9. The value projected for a row is the label \<open>{N keys}\<close> when the kind of the
  row is \<open>object\<close> and \<open>[N items]\<close> when it is \<open>array\<close>, \<open>N\<close> being the child
  count of the row (zero when it has none), and the value of the row itself otherwise.
  The rows of a node wrapping \<open>{k1: {}, k2: [1,2,3], k3: "x"}\<close> project, in that order,
  \<open>{0 keys}\<close>, \<open>[3 items]\<close> and \<open>x\<close>.
\<close>

theorem getRowText_projection:
  "(rtype row = ''object'' \<longrightarrow>
      getRowText row = SStr (''{'' @ show_nat (case childrenCount row of None \<Rightarrow> 0 | Some n \<Rightarrow> n) @ '' keys}''))
   \<and> (rtype row = ''array'' \<longrightarrow>
      getRowText row = SStr (''['' @ show_nat (case childrenCount row of None \<Rightarrow> 0 | Some n \<Rightarrow> n) @ '' items]''))
   \<and> (rtype row \<noteq> ''object'' \<and> rtype row \<noteq> ''array'' \<longrightarrow> getRowText row = rvalue row)
   \<and> map getRowText
        [\<lparr>key = Some ''k1'', rvalue = v1, rtype = ''object'', childrenCount = Some 0\<rparr>,
         \<lparr>key = Some ''k2'', rvalue = v2, rtype = ''array'', childrenCount = Some 3\<rparr>,
         \<lparr>key = Some ''k3'', rvalue = SStr ''x'', rtype = ''string'', childrenCount = None\<rparr>]
       = [SStr ''{0 keys}'', SStr ''[3 items]'', SStr ''x'']"
proof -
  have z: "show_nat 0 = ''0''" by (simp add: show_nat.simps [of 0] digit_char_def)
  have t: "show_nat 3 = ''3''" by (simp add: show_nat.simps [of 3] digit_char_def)
  show ?thesis by (simp add: getRowText_def count_or_zero_def z t)
qed

theorem getRowText_projection_witness:
  "rtype \<lparr>key = Some ''k2'', rvalue = SNull :: int scalar, rtype = ''array'', childrenCount = Some 3\<rparr> = ''array''
   \<and> getRowText \<lparr>key = Some ''k2'', rvalue = SNull :: int scalar, rtype = ''array'', childrenCount = Some 3\<rparr>
       = SStr ''[3 items]''"
proof -
  let ?row = "\<lparr>key = Some ''k2'', rvalue = SNull :: int scalar, rtype = ''array'', childrenCount = Some 3\<rparr>"
  have t: "show_nat 3 = ''3''" by (simp add: show_nat.simps [of 3] digit_char_def)
  have k: "rtype ?row = ''array''" by simp
  with getRowText_projection [of ?row SNull SNull]
  have "getRowText ?row
          = SStr (''['' @ show_nat (case childrenCount ?row of None \<Rightarrow> 0 | Some n \<Rightarrow> n) @ '' items]'')"
    by blast
  with k show ?thesis by (simp add: t)
qed

section \<open>Lemmas on the editable content and on the stores\<close>







lemma replaceRoot_stores:
  "json (replaceRoot env st v) = JSON_stringify env v
   \<and> contents (replaceRoot env st v) = JSON_stringify env v
   \<and> hasChanges (replaceRoot env st v)
   \<and> nodes (replaceRoot env st v) = parser env (JSON_stringify env v)
   \<and> editing (replaceRoot env st v) = editing st
   \<and> editedContent (replaceRoot env st v) = editedContent st
   \<and> error (replaceRoot env st v) = error st"
  by (simp add: replaceRoot_def setJson_def setSelectedNode_def Let_def split: option.splits)

lemma publishAndReselect_stores:
  "publishAndReselect env st p d = Done st' \<Longrightarrow>
     json st' = JSON_stringify env d
     \<and> contents st' = JSON_stringify env d
     \<and> hasChanges st'
     \<and> nodes st' = parser env (JSON_stringify env d)
     \<and> editing st' = editing st
     \<and> error st' = error st"
  by (auto simp: publishAndReselect_def setJson_def setSelectedNode_def Let_def
      split: option.splits outcome.splits)


lemma forEach_rows_no_throw: "forEach_rows h (JObj acc) rows \<noteq> Throws e"
proof (induction rows arbitrary: acc)
  case Nil
  then show ?case by simp
next
  case (Cons row rows)
  have "add_row h (JObj acc) row = Outside \<or> (\<exists>acc'. add_row h (JObj acc) row = Done (JObj acc'))"
    by (auto simp: add_row_def split: option.splits)
  with Cons show ?case by auto
qed

lemma normalizeNodeData_no_throw: "normalizeNodeData env rows \<noteq> Throws e"
  using forEach_rows_no_throw [of "inherited_names env" "[]" _ e]
  by (auto simp: normalizeNodeData_def split: option.splits outcome.splits)

lemma publishAndReselect_cases:
  "publishAndReselect env st p d = Done st' \<Longrightarrow>
     (case find (\<lambda>n. path_or_root n = p) (parser env (JSON_stringify env d)) of
        None \<Rightarrow> st' = st\<lparr>contents := JSON_stringify env d, hasChanges := True,
                         json := JSON_stringify env d, nodes := parser env (JSON_stringify env d)\<rparr>
      | Some m \<Rightarrow> selectedNode st' = Some m)"
  by (auto simp: publishAndReselect_def Let_def setJson_def setSelectedNode_def
      split: option.splits outcome.splits)

lemma ex_parse:
  "JSON_parse example_host ''oops'' = None"
  "JSON_parse example_host ''5'' = Some (JNum 5)"
  "JSON_parse example_host ''{}'' = Some (JObj [])"
  by (simp_all add: example_host_def)

lemma ex_stringify:
  "JSON_stringify example_host (JNum 5) = ''5''"
  "JSON_stringify example_host (JObj [(''a'', JNum 5)]) = text_a5"
  "JSON_stringify example_host (JObj [(''x'', JNum 1)]) = text_x1"
  "JSON_stringify example_host (JObj [(''a'', JObj [(''x'', JNum 1)])]) = text_ax1"
  by (simp_all add: example_host_def)

lemma text_distinct:
  "text_a5 \<noteq> text_ax1" "text_ax1 \<noteq> text_a5" "''oops'' \<noteq> text_a5" "''{}'' \<noteq> text_ax1"
  by (simp_all add: text_a5_def text_ax1_def)

lemma ex_parser:
  "parser example_host text_a5 = [node_root_a5]"
  "parser example_host text_ax1 = [node_root_ax1, node_a_x1]"
  by (simp_all add: example_host_def text_distinct)

lemma ex_names: "inherited_names example_host = standard_names"
  by (simp add: example_host_def)



lemma patch_ax1:
  "setTarget standard_names (JObj []) (Key ''a'') (JObj [(''x'', JNum (1::int))])
     = Done (JObj [(''a'', JObj [(''x'', JNum 1)])])"
  by (simp add: setTarget_def own_put_Nil standard_names_def)

lemma normalize_x1:
  "normalizeNodeData example_host
       (Some [\<lparr>key = Some ''x'', rvalue = SNum 1, rtype = ''number'', childrenCount = None\<rparr>])
     = Done text_x1"
  by (simp add: normalizeNodeData_def no_key_def add_row_def ex_names standard_names_def
      own_put_Nil ex_stringify)

lemma publish_ax1:
  "publishAndReselect example_host st [Key ''a''] (JObj [(''a'', JObj [(''x'', JNum 1)])])
     = Done (st\<lparr>contents := text_ax1, hasChanges := True, json := text_ax1,
               nodes := [node_root_ax1, node_a_x1], selectedNode := Some node_a_x1,
               editedContent := text_x1\<rparr>)"
proof -
  have t: "text_or_empty node_a_x1
             = [\<lparr>key = Some ''x'', rvalue = SNum 1, rtype = ''number'', childrenCount = None\<rparr>]"
    by (simp add: text_or_empty_def node_a_x1_def)
  have pr: "path_or_root node_root_ax1 = []" and pa: "path_or_root node_a_x1 = [Key ''a'']"
    by (simp_all add: path_or_root_def node_root_ax1_def node_a_x1_def)
  show ?thesis
    by (simp add: publishAndReselect_def Let_def setJson_def setSelectedNode_def ex_stringify
        ex_parser pr pa t normalize_x1)
qed

section \<open>Claim on the editable content\<close>



section \<open>Claims on the stores\<close>

text \<open>
  Claim C5. At the empty (or missing) path the document handed to the serialiser is the
  new value itself, whatever the current document is, and \<open>applyEditToJson\<close> publishes
  the text of the new value to the file store and to the json store: no merge takes
  place at the root.
\<close>

theorem root_replace:
  "patched h D (Some []) V = Done V
   \<and> patched h D None V = Done V
   \<and> (\<exists>st'. applyEditToJson env st (Some []) V = Done st'
         \<and> json st' = JSON_stringify env V \<and> contents st' = JSON_stringify env V
         \<and> nodes st' = parser env (JSON_stringify env V))
   \<and> (\<exists>st'. applyEditToJson env st None V = Done st'
         \<and> json st' = JSON_stringify env V \<and> contents st' = JSON_stringify env V
         \<and> nodes st' = parser env (JSON_stringify env V))"
  using replaceRoot_stores [of env st V]
  by (simp add: patched_def applyEditToJson_def Let_def)




text \<open>
  Claim C7. After a successful edit at a non-empty path, the node set is the one rebuilt
  from the published text. The lookup compares the serialised paths, which are equal
  exactly when the paths are equal segment by segment; it selects the first node whose
  path equals the edited path, which is the only one when no two nodes share a path. If
  no node has that path, the selection is unchanged and the state differs from the state
  before the edit by the published text and the rebuilt node set only.
\<close>

theorem reselect_by_path:
  assumes "applyEditToJson env st (Some (seg # rest)) V = Done st'"
  shows "nodes st' = parser env (json st')
       \<and> (\<forall>q. (stringify_path q = stringify_path (seg # rest)) = (q = seg # rest))
       \<and> (\<forall>m. find (\<lambda>n. path_or_root n = seg # rest) (nodes st') = Some m \<longrightarrow>
             selectedNode st' = Some m \<and> m \<in> set (nodes st') \<and> path_or_root m = seg # rest
             \<and> (distinct (map path_or_root (nodes st')) \<longrightarrow>
                  (\<forall>n \<in> set (nodes st'). path_or_root n = seg # rest \<longrightarrow> n = m)))
       \<and> ((\<forall>n \<in> set (nodes st'). path_or_root n \<noteq> seg # rest) \<longrightarrow>
             selectedNode st' = selectedNode st
             \<and> st' = st\<lparr>contents := json st', hasChanges := True, json := json st', nodes := nodes st'\<rparr>)"
proof -
  let ?p = "seg # rest"
  from assms obtain d where
    r: "publishAndReselect env st ?p d = Done st'"
    by (auto simp: applyEditToJson_def Let_def split: outcome.splits)
  let ?t = "JSON_stringify env d"
  from publishAndReselect_stores [OF r]
  have j: "?t = json st'" and n: "parser env (json st') = nodes st'" by simp_all
  from publishAndReselect_cases [OF r]
  have cases: "case find (\<lambda>n. path_or_root n = ?p) (nodes st') of
        None \<Rightarrow> st' = st\<lparr>contents := json st', hasChanges := True,
                         json := json st', nodes := nodes st'\<rparr>
      | Some m \<Rightarrow> selectedNode st' = Some m"
    unfolding j n .
  have found: "selectedNode st' = Some m \<and> m \<in> set (nodes st') \<and> path_or_root m = ?p
                 \<and> (distinct (map path_or_root (nodes st')) \<longrightarrow>
                      (\<forall>n \<in> set (nodes st'). path_or_root n = ?p \<longrightarrow> n = m))"
    if f: "find (\<lambda>n. path_or_root n = ?p) (nodes st') = Some m" for m
  proof -
    from f have mem: "m \<in> set (nodes st')" and pm: "path_or_root m = ?p"
      by (auto simp: find_Some_iff)
    from cases f have sel: "selectedNode st' = Some m" by simp
    have "n = m"
      if "distinct (map path_or_root (nodes st'))" and "n \<in> set (nodes st')" and "path_or_root n = ?p" for n
    proof -
      from that(1) have i: "inj_on path_or_root (set (nodes st'))" by (simp add: distinct_map)
      from that(3) pm have "path_or_root n = path_or_root m" by simp
      from inj_onD [OF i this that(2) mem] show ?thesis .
    qed
    with sel mem pm show ?thesis by blast
  qed
  have missing: "selectedNode st' = selectedNode st
        \<and> st' = st\<lparr>contents := json st', hasChanges := True, json := json st', nodes := nodes st'\<rparr>"
    if "\<forall>n \<in> set (nodes st'). path_or_root n \<noteq> ?p"
  proof -
    from that have "find (\<lambda>n. path_or_root n = ?p) (nodes st') = None"
      by (simp add: find_None_iff)
    with cases have e: "st' = st\<lparr>contents := json st', hasChanges := True, json := json st', nodes := nodes st'\<rparr>"
      by simp
    have "selectedNode (st\<lparr>contents := json st', hasChanges := True, json := json st', nodes := nodes st'\<rparr>)
            = selectedNode st" by simp
    with e show ?thesis by metis
  qed
  from n have nj: "nodes st' = parser env (json st')" by simp
  show ?thesis
  proof (intro conjI allI impI)
    show "nodes st' = parser env (json st')" by (rule nj)
    show "(stringify_path q = stringify_path ?p) = (q = ?p)" for q by simp
  qed (use found missing in blast)+
qed

theorem reselect_by_path_witness:
  "applyEditToJson example_host state_empty_doc (Some [Key ''a'']) (JObj [(''x'', JNum 1)])
     = Done (state_empty_doc
               \<lparr>contents := text_ax1, hasChanges := True, json := text_ax1,
                nodes := [node_root_ax1, node_a_x1], selectedNode := Some node_a_x1,
                editedContent := text_x1\<rparr>)
   \<and> find (\<lambda>n. path_or_root n = [Key ''a'']) [node_root_ax1, node_a_x1] = Some node_a_x1
   \<and> selectedNode (state_empty_doc
               \<lparr>contents := text_ax1, hasChanges := True, json := text_ax1,
                nodes := [node_root_ax1, node_a_x1], selectedNode := Some node_a_x1,
                editedContent := text_x1\<rparr>) = Some node_a_x1"
proof -
  let ?st' = "state_empty_doc
               \<lparr>contents := text_ax1, hasChanges := True, json := text_ax1,
                nodes := [node_root_ax1, node_a_x1], selectedNode := Some node_a_x1,
                editedContent := text_x1\<rparr>"
  have pr: "path_or_root node_root_ax1 = []" and pa: "path_or_root node_a_x1 = [Key ''a'']"
    by (simp_all add: path_or_root_def node_root_ax1_def node_a_x1_def)
  have run: "applyEditToJson example_host state_empty_doc (Some [Key ''a'']) (JObj [(''x'', JNum 1)])
               = Done ?st'"
    by (simp add: applyEditToJson_def Let_def state_empty_doc_def ex_parse ex_names patch_ax1
        publish_ax1)
  have f: "find (\<lambda>n. path_or_root n = [Key ''a'']) (nodes ?st') = Some node_a_x1"
    by (simp add: pr pa)
  from reselect_by_path [OF run] f
  have "selectedNode ?st' = Some node_a_x1" by blast
  with run f show ?thesis by simp
qed

end
